theory Spec2Isabelle
  imports Main
begin

section \<open>Python string primitives used by the reader and the writer\<close>

text \<open>
  A Python \<open>str\<close> is modelled as a \<open>string\<close> whose characters are the code points
  below 256. The predicates below are the restrictions of the Python built-ins to
  that range.
\<close>

definition newline :: char where
  "newline = CHR 0x0A"

definition carriage_return :: char where
  "carriage_return = CHR 0x0D"

text \<open>\<open>str.isspace\<close>, the separator test of \<open>str.split()\<close> without arguments.\<close>

definition is_space :: "char \<Rightarrow> bool" where
  "is_space c =
     (let n = (of_char c :: nat)
      in (9 \<le> n \<and> n \<le> 13) \<or> (28 \<le> n \<and> n \<le> 32) \<or> n = 133 \<or> n = 160)"

text \<open>
  The characters that \<open>int(s)\<close> strips from both ends of \<open>s\<close>: the separators
  28 to 31 are not among them.
\<close>

definition int_space :: "char \<Rightarrow> bool" where
  "int_space c =
     (let n = (of_char c :: nat)
      in (9 \<le> n \<and> n \<le> 13) \<or> n = 32 \<or> n = 133 \<or> n = 160)"

text \<open>\<open>str.lower\<close>, character by character.\<close>

definition lower_char :: "char \<Rightarrow> char" where
  "lower_char c =
     (let n = (of_char c :: nat)
      in if (65 \<le> n \<and> n \<le> 90) \<or> (192 \<le> n \<and> n \<le> 222 \<and> n \<noteq> 215)
         then char_of (n + 32) else c)"

definition lower :: "string \<Rightarrow> string" where
  "lower s = map lower_char s"

text \<open>\<open>s.startswith(p)\<close>.\<close>

fun startswith :: "string \<Rightarrow> string \<Rightarrow> bool" where
  "startswith s [] = True"
| "startswith [] (p # ps) = False"
| "startswith (c # s) (p # ps) = (c = p \<and> startswith s ps)"

text \<open>\<open>s.rstrip('\n')\<close>: every trailing line feed is removed.\<close>

definition rstrip_nl :: "string \<Rightarrow> string" where
  "rstrip_nl s = rev (dropWhile (\<lambda>c. c = newline) (rev s))"

text \<open>\<open>s.split('\n')\<close>: the pieces between line feeds, empty pieces kept.\<close>

fun split_nl_from :: "string \<Rightarrow> string \<Rightarrow> string list" where
  "split_nl_from cur [] = [cur]"
| "split_nl_from cur (c # cs) =
     (if c = newline then cur # split_nl_from [] cs else split_nl_from (cur @ [c]) cs)"

definition split_nl :: "string \<Rightarrow> string list" where
  "split_nl s = split_nl_from [] s"

text \<open>\<open>s.split()\<close>: the maximal runs of characters that are not white space.\<close>

fun py_split_from :: "string \<Rightarrow> string \<Rightarrow> string list" where
  "py_split_from cur [] = (if cur = [] then [] else [cur])"
| "py_split_from cur (c # cs) =
     (if is_space c then (if cur = [] then [] else [cur]) @ py_split_from [] cs
      else py_split_from (cur @ [c]) cs)"

definition py_split :: "string \<Rightarrow> string list" where
  "py_split s = py_split_from [] s"

subsection \<open>Decimal integers\<close>

definition digit_val :: "char \<Rightarrow> nat option" where
  "digit_val c =
     (let n = (of_char c :: nat) in if 48 \<le> n \<and> n \<le> 57 then Some (n - 48) else None)"

text \<open>
  The digits after the first one: a single underscore is allowed between two digits,
  never at the end and never doubled.
\<close>

fun digits_tail :: "nat \<Rightarrow> string \<Rightarrow> nat option" where
  "digits_tail acc [] = Some acc"
| "digits_tail acc (c # cs) =
     (if c = CHR ''_'' then
        (case cs of
           [] \<Rightarrow> None
         | d # ds \<Rightarrow>
             (case digit_val d of
                None \<Rightarrow> None
              | Some v \<Rightarrow> digits_tail (10 * acc + v) ds))
      else
        (case digit_val c of
           None \<Rightarrow> None
         | Some v \<Rightarrow> digits_tail (10 * acc + v) cs))"

definition py_digits :: "string \<Rightarrow> nat option" where
  "py_digits s =
     (case s of
        [] \<Rightarrow> None
      | c # cs \<Rightarrow> (case digit_val c of None \<Rightarrow> None | Some v \<Rightarrow> digits_tail v cs))"

definition int_strip :: "string \<Rightarrow> string" where
  "int_strip s = rev (dropWhile int_space (rev (dropWhile int_space s)))"

text \<open>\<open>int(s)\<close> in base ten; \<open>None\<close> stands for the \<open>ValueError\<close> it raises.\<close>

definition py_int :: "string \<Rightarrow> int option" where
  "py_int s =
     (case int_strip s of
        [] \<Rightarrow> None
      | c # cs \<Rightarrow>
          if c = CHR ''-'' then map_option (\<lambda>n. - int n) (py_digits cs)
          else if c = CHR ''+'' then map_option int (py_digits cs)
          else map_option int (py_digits (c # cs)))"

definition digit_char :: "nat \<Rightarrow> char" where
  "digit_char d = char_of (48 + d)"

fun str_nat :: "nat \<Rightarrow> string" where
  "str_nat n = (if n < 10 then [digit_char n] else str_nat (n div 10) @ [digit_char (n mod 10)])"

declare str_nat.simps [simp del]

text \<open>The text that an f-string \<open>f"{i}"\<close> produces for an integer.\<close>

definition py_str :: "int \<Rightarrow> string" where
  "py_str i = (if i < 0 then CHR ''-'' # str_nat (nat (- i)) else str_nat (nat i))"

section \<open>The reader: \<open>parse_pajek_communities\<close>\<close>

datatype error = ValueError | StopIteration | UnboundLocalError | RuntimeError

text \<open>The argument is either one string or an iterable of lines.\<close>

datatype lines_arg = Str string | Iterable "string list"

text \<open>
  The dictionary \<open>communities\<close> keeps its keys in insertion order, which the final
  list comprehension reads off; it is an association list here.
\<close>

type_synonym communities_dict = "(int \<times> int list) list"

text \<open>\<open>communities.setdefault(community, []).append(vertex)\<close>.\<close>

fun setdefault_append :: "int \<Rightarrow> int \<Rightarrow> communities_dict \<Rightarrow> communities_dict" where
  "setdefault_append k v [] = [(k, [v])]"
| "setdefault_append k v ((k', vs) # d) =
     (if k' = k then (k', vs @ [v]) # d else (k', vs) # setdefault_append k v d)"

text \<open>
  The inner \<open>for vertex in range(int(nnodes))\<close> loop, with \<open>k\<close> iterations left:
  \<open>next(lines)\<close> on exhausted input raises \<open>StopIteration\<close>, \<open>int(l)\<close> on a line that
  is no integer raises \<open>ValueError\<close>. The lines not consumed are returned with the
  dictionary.
\<close>

fun read_assignments ::
  "nat \<Rightarrow> nat \<Rightarrow> string list \<Rightarrow> communities_dict \<Rightarrow> error + (communities_dict \<times> string list)"
where
  "read_assignments 0 vertex ls communities = Inr (communities, ls)"
| "read_assignments (Suc k) vertex [] communities = Inl StopIteration"
| "read_assignments (Suc k) vertex (l # ls) communities =
     (case py_int l of
        None \<Rightarrow> Inl ValueError
      | Some community \<Rightarrow>
          read_assignments k (Suc vertex) ls
            (setdefault_append community (int vertex) communities))"

text \<open>
  The final \<open>return\<close>: the name \<open>communities\<close> is bound only once a header line has
  been processed, and reading an unbound local raises \<open>UnboundLocalError\<close>.
\<close>

fun return_communities :: "communities_dict option \<Rightarrow> error + int list list" where
  "return_communities None = Inl UnboundLocalError"
| "return_communities (Some communities) = Inr (map snd communities)"

definition is_header :: "string \<Rightarrow> bool" where
  "is_header l = startswith (lower l) ''*vertices''"

lemma read_assignments_rest:
  "read_assignments k vertex ls communities = Inr (c, rest) \<Longrightarrow> length rest \<le> length ls"
proof (induction k vertex ls communities rule: read_assignments.induct)
  case (3 k vertex l ls communities)
  then show ?case by (auto split: option.splits)
qed auto

text \<open>
  The outer \<open>while lines:\<close> loop (an iterator is always true). The second argument is
  the local variable \<open>communities\<close>, \<open>None\<close> while it is unbound.
\<close>

function parse_loop :: "string list \<Rightarrow> communities_dict option \<Rightarrow> error + int list list" where
  "parse_loop [] communities = return_communities communities"
| "parse_loop (l # ls) communities =
     (if is_header l then
        (case py_split l of
           [l', nnodes] \<Rightarrow>
             (case py_int nnodes of
                None \<Rightarrow> Inl ValueError
              | Some n \<Rightarrow>
                  (case read_assignments (nat n) 0 ls [] of
                     Inl e \<Rightarrow> Inl e
                   | Inr (communities', rest) \<Rightarrow> parse_loop rest (Some communities')))
         | _ \<Rightarrow> Inl ValueError)
      else return_communities communities)"
  by pat_completeness auto
termination
  by (relation "measure (\<lambda>(ls, c). length ls)")
     (auto dest: read_assignments_rest simp: less_Suc_eq_le)

definition parse_pajek_communities :: "lines_arg \<Rightarrow> error + int list list" where
  "parse_pajek_communities arg =
     (let lines = (case arg of Str s \<Rightarrow> split_nl s | Iterable ls \<Rightarrow> ls)
      in parse_loop (map rstrip_nl lines) None)"

section \<open>The writer: \<open>generate_pajek_communities\<close>\<close>

text \<open>\<open>[min(item) for item in communities_list if item]\<close>.\<close>

fun item_mins :: "int list list \<Rightarrow> int list" where
  "item_mins [] = []"
| "item_mins ([] # cl) = item_mins cl"
| "item_mins ((x # xs) # cl) = fold min xs x # item_mins cl"

text \<open>\<open>min\<close> of a list; on the empty list Python raises \<open>ValueError\<close>.\<close>

fun py_min :: "int list \<Rightarrow> int option" where
  "py_min [] = None"
| "py_min (x # xs) = Some (fold min xs x)"

text \<open>\<open>next(i for i, v in enumerate(communities_list) if vertex in v)\<close>.\<close>

fun find_owner :: "int \<Rightarrow> int list list \<Rightarrow> nat option" where
  "find_owner vertex [] = None"
| "find_owner vertex (v # cl) =
     (if vertex \<in> set v then Some 0 else map_option Suc (find_owner vertex cl))"

text \<open>
  One iteration of the loop body on the working copy: the community that holds the
  least vertex, and the working copy after \<open>remove\<close>. An exhausted \<open>next\<close> inside a
  generator surfaces as \<open>RuntimeError\<close>.
\<close>

definition pop_min :: "int list list \<Rightarrow> error + (nat \<times> int list list)" where
  "pop_min cl =
     (case py_min (item_mins cl) of
        None \<Rightarrow> Inl ValueError
      | Some vertex \<Rightarrow>
          (case find_owner vertex cl of
             None \<Rightarrow> Inl RuntimeError
           | Some community \<Rightarrow>
               Inr (community, cl[community := remove1 vertex (cl ! community)])))"

text \<open>
  The \<open>for n in range(0, nnodes)\<close> loop. A generator hands out its lines one by one,
  so the result is the lines yielded and the exception that ended the run, if any.
\<close>

fun gen_loop :: "nat \<Rightarrow> int list list \<Rightarrow> string list \<times> error option" where
  "gen_loop 0 cl = ([], None)"
| "gen_loop (Suc n) cl =
     (case pop_min cl of
        Inl e \<Rightarrow> ([], Some e)
      | Inr (community, cl') \<Rightarrow>
          (case gen_loop n cl' of
             (ls, e) \<Rightarrow> (py_str (int community + 1) # ls, e)))"

definition generate_pajek_communities :: "int list list \<Rightarrow> string list \<times> error option" where
  "generate_pajek_communities communities =
     (let communities_list = communities;
          nnodes = sum_list (map length communities)
      in case gen_loop nnodes communities_list of
           (ls, e) \<Rightarrow> ((''*Vertices '' @ py_str (int nnodes)) # ls, e))"

section \<open>Notions of the specification\<close>

text \<open>The distinct labels of the body, in the order of their first appearance.\<close>

fun first_seen :: "int list \<Rightarrow> int list" where
  "first_seen [] = []"
| "first_seen (x # xs) = x # filter (\<lambda>y. y \<noteq> x) (first_seen xs)"

text \<open>The zero-based positions of the body lines that carry the label \<open>l\<close>, ascending.\<close>

definition positions :: "int \<Rightarrow> int list \<Rightarrow> int list" where
  "positions l labels = map int (filter (\<lambda>i. labels ! i = l) [0..<length labels])"

definition group_by_label :: "int list \<Rightarrow> int list list" where
  "group_by_label labels = map (\<lambda>l. positions l labels) (first_seen labels)"

text \<open>
  The scan of the outer loop ends at the end of the input and at a line that does not
  begin with the keyword.
\<close>

fun scan_stops :: "string list \<Rightarrow> bool" where
  "scan_stops [] = True"
| "scan_stops (r # rest) = (\<not> is_header r)"

text \<open>
  A header line is malformed when its split does not give exactly two tokens, or the
  second token is no integer.
\<close>

definition malformed_header :: "string \<Rightarrow> bool" where
  "malformed_header l = (case py_split l of [a, b] \<Rightarrow> py_int b = None | _ \<Rightarrow> True)"

text \<open>
  Invariant I1: the vertex indices of all communities together are \<open>0, \<dots>, N - 1\<close>,
  each exactly once.
\<close>

definition I1 :: "int list list \<Rightarrow> bool" where
  "I1 P = (sort (concat P) = map int [0..<length (concat P)])"

text \<open>
  The communities that the reader can return: none is empty, and they are listed by
  ascending least vertex index.
\<close>

definition least_first :: "int list list \<Rightarrow> bool" where
  "least_first P = ([] \<notin> set P \<and> sorted_wrt (<) (item_mins P))"

text \<open>The position of the first occurrence of \<open>y\<close> in a list.\<close>

fun first_idx :: "int list \<Rightarrow> int \<Rightarrow> nat" where
  "first_idx [] y = 0"
| "first_idx (x # xs) y = (if x = y then 0 else Suc (first_idx xs y))"

text \<open>The dictionary after the labels \<open>cs\<close> have been assigned to the vertices from \<open>v\<close> on.\<close>

fun assign_all :: "int list \<Rightarrow> nat \<Rightarrow> communities_dict \<Rightarrow> communities_dict" where
  "assign_all [] v d = d"
| "assign_all (c # cs) v d = assign_all cs (Suc v) (setdefault_append c (int v) d)"

text \<open>
  The position in \<open>P\<close> of the first community that contains \<open>v\<close>, as the writer's
  search finds it.
\<close>

definition owner_index :: "int list list \<Rightarrow> int \<Rightarrow> nat" where
  "owner_index P v = (case find_owner v P of None \<Rightarrow> 0 | Some j \<Rightarrow> j)"

text \<open>The labels of the body lines that the writer yields for \<open>P\<close>.\<close>

definition labels_of :: "int list list \<Rightarrow> int list" where
  "labels_of P = map (\<lambda>i. int (owner_index P (int i)) + 1) [0..<length (concat P)]"

text \<open>The working copy of the writer after \<open>k\<close> iterations of its loop.\<close>

fun working :: "nat \<Rightarrow> int list list \<Rightarrow> error + int list list" where
  "working 0 cl = Inr cl"
| "working (Suc k) cl =
     (case pop_min cl of Inl e \<Rightarrow> Inl e | Inr (community, cl') \<Rightarrow> working k cl')"

section \<open>Facts about the string primitives\<close>

lemma digit_char_of_char: "d < 10 \<Longrightarrow> (of_char (digit_char d) :: nat) = 48 + d"
  by (simp add: digit_char_def)

lemma digit_val_digit_char: "d < 10 \<Longrightarrow> digit_val (digit_char d) = Some d"
  by (simp add: digit_val_def digit_char_of_char)

lemma digit_char_not_space: "d < 10 \<Longrightarrow> \<not> is_space (digit_char d)"
  by (simp add: is_space_def digit_char_of_char)

lemma digit_char_not_int_space: "d < 10 \<Longrightarrow> \<not> int_space (digit_char d)"
  by (simp add: int_space_def digit_char_of_char)

lemma of_char_neq: "(of_char c :: nat) \<noteq> of_char d \<Longrightarrow> c \<noteq> d"
  by auto

lemma digit_char_not_sign:
  assumes "d < 10"
  shows "digit_char d \<noteq> CHR ''-''" and "digit_char d \<noteq> CHR ''+''" and "digit_char d \<noteq> CHR ''_''"
  using assms by (auto intro!: of_char_neq simp: digit_char_of_char)

lemma str_nat_ne: "str_nat n \<noteq> []"
  by (subst str_nat.simps) simp

lemma str_nat_digits: "c \<in> set (str_nat n) \<Longrightarrow> \<exists>d<10. c = digit_char d"
proof (induction n arbitrary: c rule: str_nat.induct)
  case (1 n)
  show ?case
  proof (cases "n < 10")
    case True
    with "1.prems" show ?thesis by (subst (asm) str_nat.simps) auto
  next
    case False
    from "1.prems" have "c \<in> set (str_nat (n div 10)) \<or> c = digit_char (n mod 10)"
      using False by (subst (asm) str_nat.simps) auto
    then show ?thesis
    proof
      assume "c \<in> set (str_nat (n div 10))"
      with "1.IH" False show ?thesis by blast
    next
      assume "c = digit_char (n mod 10)"
      moreover have "n mod 10 < 10" by simp
      ultimately show ?thesis by blast
    qed
  qed
qed

lemma digits_tail_snoc:
  "digits_tail acc s = Some a \<Longrightarrow> d < 10 \<Longrightarrow> digits_tail acc (s @ [digit_char d]) = Some (10 * a + d)"
proof (induction acc s rule: digits_tail.induct)
  case (1 acc)
  then show ?case by (simp add: digit_val_digit_char digit_char_not_sign)
next
  case (2 acc c cs)
  then show ?case
    by (auto split: if_splits list.splits option.splits)
qed

lemma py_digits_snoc:
  "py_digits s = Some a \<Longrightarrow> d < 10 \<Longrightarrow> py_digits (s @ [digit_char d]) = Some (10 * a + d)"
  by (cases s) (auto simp: py_digits_def digits_tail_snoc split: option.splits)

lemma py_digits_str_nat: "py_digits (str_nat n) = Some n"
proof (induction n rule: str_nat.induct)
  case (1 n)
  show ?case
  proof (cases "n < 10")
    case True
    then show ?thesis
      by (subst str_nat.simps) (simp add: py_digits_def digit_val_digit_char)
  next
    case False
    with "1.IH" have "py_digits (str_nat (n div 10)) = Some (n div 10)" by simp
    then have "py_digits (str_nat (n div 10) @ [digit_char (n mod 10)]) = Some (10 * (n div 10) + n mod 10)"
      by (rule py_digits_snoc) simp
    with False show ?thesis by (subst str_nat.simps) simp
  qed
qed

lemma dropWhile_none: "\<forall>c\<in>set s. \<not> P c \<Longrightarrow> dropWhile P s = s"
  by (cases s) auto

lemma int_strip_id: "\<forall>c\<in>set s. \<not> int_space c \<Longrightarrow> int_strip s = s"
  by (simp add: int_strip_def dropWhile_none)

lemma str_nat_no_int_space: "\<forall>c\<in>set (str_nat n). \<not> int_space c"
  using str_nat_digits digit_char_not_int_space by blast

lemma str_nat_no_space: "\<forall>c\<in>set (str_nat n). \<not> is_space c"
  using str_nat_digits digit_char_not_space by blast

lemma py_int_str_nat: "py_int (str_nat n) = Some (int n)"
proof -
  obtain c cs where s: "str_nat n = c # cs"
    using str_nat_ne by (cases "str_nat n") auto
  then have "c \<in> set (str_nat n)" by simp
  then obtain d where d: "d < 10" "c = digit_char d"
    using str_nat_digits by blast
  have "int_strip (str_nat n) = str_nat n"
    by (rule int_strip_id [OF str_nat_no_int_space])
  then have "int_strip (str_nat n) = c # cs"
    by (simp only: s)
  moreover have "py_digits (c # cs) = Some n"
    using py_digits_str_nat [of n] s by simp
  ultimately show ?thesis
    using d by (simp add: py_int_def digit_char_not_sign)
qed

lemma minus_not_int_space: "\<not> int_space (CHR ''-'')"
  by (simp add: int_space_def)

lemma py_int_py_str: "py_int (py_str i) = Some i"
proof (cases "i < 0")
  case True
  have "\<forall>c\<in>set (CHR ''-'' # str_nat (nat (- i))). \<not> int_space c"
    using str_nat_no_int_space minus_not_int_space by simp
  then have "int_strip (CHR ''-'' # str_nat (nat (- i))) = CHR ''-'' # str_nat (nat (- i))"
    by (rule int_strip_id)
  with True show ?thesis
    by (simp add: py_int_def py_str_def py_digits_str_nat)
next
  case False
  then show ?thesis by (simp add: py_str_def py_int_str_nat)
qed

lemma py_split_from_nospace:
  "\<forall>c\<in>set s. \<not> is_space c \<Longrightarrow> py_split_from cur s = (if cur @ s = [] then [] else [cur @ s])"
  by (induction s arbitrary: cur) auto

lemma py_split_header: "py_split (''*Vertices '' @ str_nat n) = [''*Vertices'', str_nat n]"
  using py_split_from_nospace [OF str_nat_no_space, of "[]" n] str_nat_ne [of n]
  by (simp add: py_split_def is_space_def)

lemma is_header_generated: "is_header (''*Vertices '' @ s)"
  by (simp add: is_header_def lower_def lower_char_def char_of_eq_iff)

section \<open>The reader does not see line ends\<close>

lemma startswith_append:
  "\<forall>c\<in>set t. c \<notin> set p \<Longrightarrow> startswith (s @ t) p = startswith s p"
proof (induction s p rule: startswith.induct)
  case (1 s)
  show ?case by simp
next
  case (2 p ps)
  then show ?case by (cases t) simp_all
next
  case (3 c s p ps)
  then show ?case by simp
qed

lemma lower_char_cr: "lower_char carriage_return = carriage_return"
  by (simp add: lower_char_def carriage_return_def)

lemma lower_char_nl: "lower_char newline = newline"
  by (simp add: lower_char_def newline_def)
lemma keyword_no_line_end:
  "newline \<notin> set ''*vertices''" "carriage_return \<notin> set ''*vertices''"
  by (simp_all add: newline_def carriage_return_def)

lemma is_header_append:
  assumes "\<forall>c\<in>set t. c = newline \<or> c = carriage_return"
  shows "is_header (l @ t) = is_header l"
proof -
  have "\<forall>c\<in>set (map lower_char t). c \<notin> set ''*vertices''"
  proof
    fix c assume "c \<in> set (map lower_char t)"
    then obtain d where d: "d \<in> set t" "c = lower_char d" by auto
    with assms have "d = newline \<or> d = carriage_return" by blast
    with d(2) have "c = newline \<or> c = carriage_return"
      using lower_char_cr lower_char_nl by metis
    then show "c \<notin> set ''*vertices''"
      using keyword_no_line_end by metis
  qed
  then have "startswith (map lower_char l @ map lower_char t) ''*vertices'' =
      startswith (map lower_char l) ''*vertices''"
    by (rule startswith_append)
  then show ?thesis
    by (simp add: is_header_def lower_def)
qed
lemma py_split_from_append:
  "\<forall>c\<in>set t. is_space c \<Longrightarrow> py_split_from cur (s @ t) = py_split_from cur s"
proof (induction s arbitrary: cur)
  case Nil
  then show ?case by (induction t arbitrary: cur) auto
next
  case (Cons a s)
  then show ?case by simp
qed

lemma py_split_append: "\<forall>c\<in>set t. is_space c \<Longrightarrow> py_split (s @ t) = py_split s"
  by (simp add: py_split_def py_split_from_append)

lemma dropWhile_all: "\<forall>x\<in>set xs. P x \<Longrightarrow> dropWhile P xs = []"
  by (induction xs) auto

lemma int_strip_append:
  assumes "\<forall>c\<in>set t. int_space c"
  shows "int_strip (s @ t) = int_strip s"
proof (cases "\<forall>c\<in>set s. int_space c")
  case True
  with assms show ?thesis
    by (simp add: int_strip_def dropWhile_append dropWhile_all)
next
  case False
  then have "dropWhile int_space (s @ t) = dropWhile int_space s @ t"
    by (auto simp: dropWhile_append)
  moreover have "dropWhile int_space (rev t @ rev (dropWhile int_space s)) =
      dropWhile int_space (rev (dropWhile int_space s))"
    using assms by (auto simp: dropWhile_append)
  ultimately show ?thesis by (simp add: int_strip_def)
qed

lemma py_int_append: "\<forall>c\<in>set t. int_space c \<Longrightarrow> py_int (s @ t) = py_int s"
  by (simp add: py_int_def int_strip_append)

lemma newline_spaces: "is_space newline" "int_space newline"
  by (simp_all add: is_space_def int_space_def newline_def)

lemma carriage_return_spaces: "is_space carriage_return" "int_space carriage_return"
  by (simp_all add: is_space_def int_space_def carriage_return_def)

lemma rstrip_nl_decomp: "\<exists>t. l = rstrip_nl l @ t \<and> (\<forall>c\<in>set t. c = newline)"
proof -
  let ?P = "\<lambda>c. c = newline"
  have "l = rev (takeWhile ?P (rev l) @ dropWhile ?P (rev l))"
    by (simp only: takeWhile_dropWhile_id rev_rev_ident)
  then have "l = rstrip_nl l @ rev (takeWhile ?P (rev l))"
    by (simp only: rev_append rstrip_nl_def)
  moreover have "\<forall>c\<in>set (rev (takeWhile ?P (rev l))). c = newline"
    by (auto dest: set_takeWhileD)
  ultimately show ?thesis by blast
qed

lemma rstrip_nl_header: "is_header (rstrip_nl l) = is_header l"
proof -
  obtain t where t: "l = rstrip_nl l @ t" "\<forall>c\<in>set t. c = newline"
    using rstrip_nl_decomp by blast
  have "is_header (rstrip_nl l @ t) = is_header (rstrip_nl l)"
    using t(2) by (intro is_header_append) auto
  with t(1) show ?thesis by simp
qed

lemma rstrip_nl_split: "py_split (rstrip_nl l) = py_split l"
proof -
  obtain t where t: "l = rstrip_nl l @ t" "\<forall>c\<in>set t. c = newline"
    using rstrip_nl_decomp by blast
  have "py_split (rstrip_nl l @ t) = py_split (rstrip_nl l)"
    using t(2) newline_spaces by (intro py_split_append) auto
  with t(1) show ?thesis by simp
qed

lemma rstrip_nl_int: "py_int (rstrip_nl l) = py_int l"
proof -
  obtain t where t: "l = rstrip_nl l @ t" "\<forall>c\<in>set t. c = newline"
    using rstrip_nl_decomp by blast
  have "py_int (rstrip_nl l @ t) = py_int (rstrip_nl l)"
    using t(2) newline_spaces by (intro py_int_append) auto
  with t(1) show ?thesis by simp
qed

lemma read_assignments_map:
  assumes "\<And>l. py_int (f l) = py_int l"
  shows "read_assignments k v (map f ls) d =
    (case read_assignments k v ls d of Inl e \<Rightarrow> Inl e | Inr (c, rest) \<Rightarrow> Inr (c, map f rest))"
proof (induction k v ls d rule: read_assignments.induct)
  case (3 k vertex l ls communities)
  then show ?case by (simp add: assms split: option.splits)
qed simp_all

lemma parse_loop_map:
  assumes "\<And>l. is_header (f l) = is_header l"
    and "\<And>l. py_split (f l) = py_split l"
    and "\<And>l. py_int (f l) = py_int l"
  shows "parse_loop (map f ls) c = parse_loop ls c"
proof (induction ls c rule: parse_loop.induct)
  case (1 communities)
  show ?case by simp
next
  case (2 l ls communities)
  show ?case
  proof (cases "is_header l")
    case False
    then show ?thesis by (simp add: assms)
  next
    case True
    show ?thesis
    proof (cases "py_split l")
      case Nil
      with True show ?thesis by (simp add: assms)
    next
      case (Cons a r)
      show ?thesis
      proof (cases r)
        case Nil
        with Cons True show ?thesis by (simp add: assms)
      next
        case (Cons nnodes r')
        note r = this and ar = \<open>py_split l = a # r\<close>
        show ?thesis
        proof (cases r')
          case (Cons x y)
          with r \<open>py_split l = a # r\<close> True show ?thesis by (simp add: assms)
        next
          case Nil
          note r' = this
          with r \<open>py_split l = a # r\<close> have sp: "py_split l = [a, nnodes]" by simp
          show ?thesis
          proof (cases "py_int nnodes")
            case None
            with sp True show ?thesis by (simp add: assms)
          next
            case (Some n)
            show ?thesis
            proof (cases "read_assignments (nat n) 0 ls []")
              case (Inl e)
              with Some sp True show ?thesis
                by (simp add: assms(1,2) read_assignments_map [of f, OF assms(3)])
            next
              case (Inr p)
              obtain c' rest where p: "p = (c', rest)" by (cases p)
              have "parse_loop (map f rest) (Some c') = parse_loop rest (Some c')"
                using "2.IH" [OF True ar r r' Some Inr p [symmetric]] .
              with Inr p Some sp True show ?thesis
                by (simp add: assms(1,2) read_assignments_map [of f, OF assms(3)])
            qed
          qed
        qed
      qed
    qed
  qed
qed

lemma parse_loop_rstrip: "parse_loop (map rstrip_nl ls) c = parse_loop ls c"
  by (rule parse_loop_map) (simp_all add: rstrip_nl_header rstrip_nl_split rstrip_nl_int)

lemma parse_iterable: "parse_pajek_communities (Iterable ls) = parse_loop ls None"
  by (simp add: parse_pajek_communities_def parse_loop_rstrip)

section \<open>Grouping the body lines by label\<close>

lemma set_first_seen: "set (first_seen xs) = set xs"
  by (induction xs) auto

lemma distinct_first_seen: "distinct (first_seen xs)"
  by (induction xs) (auto simp: set_first_seen)

lemma first_seen_snoc:
  "first_seen (xs @ [x]) = (if x \<in> set xs then first_seen xs else first_seen xs @ [x])"
  by (induction xs) (auto simp: set_first_seen)

lemma positions_snoc:
  "positions l (xs @ [x]) =
     (if x = l then positions l xs @ [int (length xs)] else positions l xs)"
proof -
  have "filter (\<lambda>i. (xs @ [x]) ! i = l) [0..<length xs] = filter (\<lambda>i. xs ! i = l) [0..<length xs]"
    by (rule filter_cong) (auto simp: nth_append)
  then show ?thesis by (simp add: positions_def)
qed

lemma positions_absent: "l \<notin> set xs \<Longrightarrow> positions l xs = []"
  by (auto simp: positions_def filter_empty_conv)

lemma setdefault_append_map:
  "distinct ks \<Longrightarrow>
   setdefault_append k v (map (\<lambda>l. (l, f l)) ks) =
     (if k \<in> set ks then map (\<lambda>l. (l, if l = k then f l @ [v] else f l)) ks
      else map (\<lambda>l. (l, f l)) ks @ [(k, [v])])"
  by (induction ks) auto

lemma assign_all_snoc:
  "assign_all (cs @ [c]) v d = setdefault_append c (int (v + length cs)) (assign_all cs v d)"
  by (induction cs arbitrary: v d) (auto simp: add.assoc)

lemma assign_all_groups:
  "assign_all labels 0 [] = map (\<lambda>l. (l, positions l labels)) (first_seen labels)"
proof (induction labels rule: rev_induct)
  case Nil
  show ?case by simp
next
  case (snoc x xs)
  have "assign_all (xs @ [x]) 0 [] =
      setdefault_append x (int (length xs)) (map (\<lambda>l. (l, positions l xs)) (first_seen xs))"
    by (simp add: assign_all_snoc snoc.IH)
  also have "\<dots> = map (\<lambda>l. (l, positions l (xs @ [x]))) (first_seen (xs @ [x]))"
    by (auto simp: setdefault_append_map distinct_first_seen set_first_seen first_seen_snoc
        positions_snoc positions_absent)
  finally show ?case .
qed

lemma assign_all_values: "map snd (assign_all labels 0 []) = group_by_label labels"
  by (simp add: assign_all_groups group_by_label_def comp_def)

lemma read_assignments_body:
  "map py_int body = map Some labels \<Longrightarrow>
   read_assignments (length labels) v (body @ rest) d = Inr (assign_all labels v d, rest)"
proof (induction labels arbitrary: body v d)
  case Nil
  then show ?case by simp
next
  case (Cons c cs)
  then obtain b bs where "body = b # bs" "py_int b = Some c" "map py_int bs = map Some cs"
    by (cases body) auto
  with Cons.IH [of bs] show ?case by simp
qed

lemma read_assignments_short:
  "map py_int body = map Some labels \<Longrightarrow> length labels < k \<Longrightarrow>
   read_assignments k v body d = Inl StopIteration"
proof (induction labels arbitrary: body v d k)
  case Nil
  then show ?case by (cases k) auto
next
  case (Cons c cs)
  then obtain b bs where b: "body = b # bs" "py_int b = Some c" "map py_int bs = map Some cs"
    by (cases body) auto
  from Cons.prems obtain k' where k: "k = Suc k'" "length cs < k'"
    by (cases k) auto
  with Cons.IH [OF b(3) k(2)] b show ?case by simp
qed

lemma parse_loop_stop: "scan_stops rest \<Longrightarrow> parse_loop rest c = return_communities c"
  by (cases rest) auto

lemma parse_loop_section:
  assumes "is_header l" and "py_split l = [a, b]" and "py_int b = Some n"
    and "nat n = length labels" and "map py_int body = map Some labels"
    and "scan_stops rest"
  shows "parse_loop (l # body @ rest) c = Inr (group_by_label labels)"
  using assms
  by (simp add: read_assignments_body parse_loop_stop assign_all_values)

section \<open>Claims about the reader\<close>

text \<open>
  C3. The claim: input that ends before any header line, the empty input in particular,
  gives the empty partition and no error. The code leaves the loop at the end of the
  input as the claim says, but it binds \<open>communities\<close> only inside the header branch,
  so the final \<open>return\<close> reads an unbound local: on the empty input the call raises
  \<open>UnboundLocalError\<close>, for a list of lines and for a string alike.
\<close>

theorem parse_empty_input_unbound:
  "parse_pajek_communities (Iterable []) = Inl UnboundLocalError
   \<and> parse_pajek_communities (Str []) = Inl UnboundLocalError"
  by (simp add: parse_pajek_communities_def split_nl_def rstrip_nl_def is_header_def lower_def)

text \<open>
  C4, as stated: every line after the \<open>N\<close>-th body line is ignored. It fails when the
  next line begins with the keyword again: the loop reads a second section, and its
  communities replace those of the first.
\<close>

theorem trailing_section_counterexample:
  "parse_pajek_communities (Iterable [''*Vertices 1'', ''1'', ''*Vertices 2'', ''1'', ''2''])
     = Inr [[0], [1]]
   \<and> parse_pajek_communities (Iterable [''*Vertices 1'', ''1'']) = Inr [[0]]"
  by code_simp

text \<open>
  C4, amended: for a header line that declares \<open>N\<close>, followed by \<open>N\<close> body lines that
  are integers and by trailing lines of which the first does not begin with the
  keyword (compared without case), the result is that of the input cut after the
  \<open>N\<close>-th body line.
\<close>

theorem trailing_lines_ignored:
  assumes "is_header l" and "py_split l = [a, b]" and "py_int b = Some n"
    and "nat n = length labels" and "map py_int body = map Some labels"
    and "scan_stops rest"
  shows "parse_pajek_communities (Iterable (l # body @ rest))
    = parse_pajek_communities (Iterable (l # body))"
proof -
  have "parse_loop (l # body @ rest) None = Inr (group_by_label labels)"
    using assms by (rule parse_loop_section)
  moreover have "parse_loop (l # body @ []) None = Inr (group_by_label labels)"
    using assms(1-5) by (rule parse_loop_section) simp
  ultimately show ?thesis by (simp add: parse_iterable)
qed

theorem trailing_lines_ignored_witness:
  "is_header ''*Vertices 2'' \<and> scan_stops [''% end'', ''*Vertices'']
   \<and> parse_pajek_communities (Iterable [''*Vertices 2'', ''1'', ''2'', ''% end'', ''*Vertices''])
     = parse_pajek_communities (Iterable [''*Vertices 2'', ''1'', ''2''])
   \<and> parse_pajek_communities (Iterable [''*Vertices 2'', ''1'', ''2'']) = Inr [[0], [1]]"
proof -
  have h1: "is_header ''*Vertices 2''" by code_simp
  have h2: "py_split ''*Vertices 2'' = [''*Vertices'', ''2'']" by code_simp
  have h3: "py_int ''2'' = Some 2" by code_simp
  have h4: "nat 2 = length [1, 2 :: int]" by simp
  have h5: "map py_int [''1'', ''2''] = map Some [1, 2]" by code_simp
  have h6: "scan_stops [''% end'', ''*Vertices'']" by code_simp
  have r: "parse_pajek_communities (Iterable [''*Vertices 2'', ''1'', ''2'']) = Inr [[0], [1]]"
    by code_simp
  from trailing_lines_ignored [OF h1 h2 h3 h4 h5 h6] h1 h6 r show ?thesis by simp
qed

text \<open>
  C5, as stated: a header whose count token is a negative integer is a malformed
  header. It fails: \<open>int\<close> accepts the token and \<open>range\<close> of a negative number is
  empty, so no body line is read and the result is the empty partition.
\<close>

theorem negative_count_counterexample:
  "is_header ''*Vertices -3'' \<and> py_split ''*Vertices -3'' = [''*Vertices'', ''-3'']
   \<and> py_int ''-3'' = Some (- 3)
   \<and> parse_pajek_communities (Iterable [''*Vertices -3'']) = Inr []"
  by code_simp

text \<open>
  C5, amended: when the first line begins with the keyword and its split on white
  space does not give exactly two tokens of which the second is an integer (of either
  sign), the call fails with \<open>ValueError\<close>, whatever follows.
\<close>

theorem malformed_header_error:
  assumes "is_header l" and "malformed_header l"
  shows "parse_pajek_communities (Iterable (l # ls)) = Inl ValueError"
proof -
  have "parse_loop (l # ls) None = Inl ValueError"
    using assms by (auto simp: malformed_header_def split: list.splits)
  then show ?thesis by (simp add: parse_iterable)
qed

theorem malformed_header_error_witness:
  "is_header ''*Vertices'' \<and> malformed_header ''*Vertices''
   \<and> is_header ''*Vertices x'' \<and> malformed_header ''*Vertices x''
   \<and> parse_pajek_communities (Iterable [''*Vertices'']) = Inl ValueError
   \<and> parse_pajek_communities (Iterable [''*Vertices x'', ''1'']) = Inl ValueError"
proof -
  have h1: "is_header ''*Vertices''" by code_simp
  have h2: "malformed_header ''*Vertices''" by code_simp
  have h3: "is_header ''*Vertices x''" by code_simp
  have h4: "malformed_header ''*Vertices x''" by code_simp
  from malformed_header_error [OF h1 h2, of "[]"] malformed_header_error [OF h3 h4, of "[''1'']"]
    h1 h2 h3 h4
  show ?thesis by simp
qed

text \<open>
  C6. For a header line that declares \<open>N\<close>, followed by \<open>N\<close> body lines that are
  integers (and then by the end of the input or by a line that does not begin with the
  keyword), the communities returned are those of the distinct labels in the order of
  their first appearance, and each holds the positions of its label in ascending order:
  a label seen again is appended to the community it already has.
\<close>

theorem first_appearance_order:
  assumes "is_header l" and "py_split l = [a, b]" and "py_int b = Some n"
    and "nat n = length labels" and "map py_int body = map Some labels"
    and "scan_stops rest"
  shows "parse_pajek_communities (Iterable (l # body @ rest))
    = Inr (map (\<lambda>c. positions c labels) (first_seen labels))"
proof -
  have "parse_loop (l # body @ rest) None = Inr (group_by_label labels)"
    using assms by (rule parse_loop_section)
  then show ?thesis by (simp add: parse_iterable group_by_label_def)
qed

theorem first_appearance_order_witness:
  "first_seen [3, 1, 3, 1] = [3, 1]
   \<and> positions 3 [3, 1, 3, 1] = [0, 2] \<and> positions 1 [3, 1, 3, 1] = [1, 3]
   \<and> parse_pajek_communities (Iterable [''*Vertices 4'', ''3'', ''1'', ''3'', ''1''])
     = Inr [[0, 2], [1, 3]]"
proof -
  have h1: "is_header ''*Vertices 4''" by code_simp
  have h2: "py_split ''*Vertices 4'' = [''*Vertices'', ''4'']" by code_simp
  have h3: "py_int ''4'' = Some 4" by code_simp
  have h4: "nat 4 = length [3, 1, 3, 1 :: int]" by simp
  have h5: "map py_int [''3'', ''1'', ''3'', ''1''] = map Some [3, 1, 3, 1]" by code_simp
  have h6: "scan_stops []" by simp
  have f: "first_seen [3, 1, 3, 1] = [3, 1]" by code_simp
  have p3: "positions 3 [3, 1, 3, 1] = [0, 2]" by code_simp
  have p1: "positions 1 [3, 1, 3, 1] = [1, 3]" by code_simp
  from first_appearance_order [OF h1 h2 h3 h4 h5 h6] f p3 p1 show ?thesis by simp
qed

text \<open>
  C7, as stated: leading lines are skipped until a line whose first token equals the
  keyword, and a token that only begins with the keyword is no header. Both parts fail:
  a first line that is no header ends the scan, so a header on the second line is never
  reached; and a first line whose first token continues after the keyword is read as
  the header.
\<close>

theorem header_search_counterexample:
  "parse_pajek_communities (Iterable [''% comment'', ''*Vertices 1'', ''1''])
     \<noteq> parse_pajek_communities (Iterable [''*Vertices 1'', ''1''])
   \<and> parse_pajek_communities (Iterable [''*Vertices 1'', ''1'']) = Inr [[0]]
   \<and> parse_pajek_communities (Iterable [''*VerticesX 1'', ''1'']) = Inr [[0]]"
  by code_simp

text \<open>
  C7, amended: the reader looks for the header on the first line only. The line is the
  header exactly when its text, in lower case, begins with \<open>*vertices\<close>; when it does
  not, the scan ends there and no later line is read (the result is that of the empty
  input); when it does, its second token is the count of the body lines that follow.
\<close>

theorem header_is_first_line:
  "(is_header l \<longleftrightarrow> (\<exists>sfx. lower l = ''*vertices'' @ sfx))
   \<and> (\<not> is_header l \<longrightarrow>
        parse_pajek_communities (Iterable (l # ls)) = parse_pajek_communities (Iterable []))
   \<and> (is_header l \<and> py_split l = [a, b] \<and> py_int b = Some n \<and> nat n = length labels
        \<and> map py_int body = map Some labels \<and> scan_stops rest \<longrightarrow>
        parse_pajek_communities (Iterable (l # body @ rest)) = Inr (group_by_label labels))"
proof (intro conjI impI)
  have "startswith s p \<longleftrightarrow> (\<exists>sfx. s = p @ sfx)" for s p :: string
    by (induction s p rule: startswith.induct) auto
  then show "is_header l \<longleftrightarrow> (\<exists>sfx. lower l = ''*vertices'' @ sfx)"
    unfolding is_header_def by blast
next
  assume "\<not> is_header l"
  then show "parse_pajek_communities (Iterable (l # ls)) = parse_pajek_communities (Iterable [])"
    by (simp add: parse_iterable)
next
  assume "is_header l \<and> py_split l = [a, b] \<and> py_int b = Some n \<and> nat n = length labels
        \<and> map py_int body = map Some labels \<and> scan_stops rest"
  then have "parse_loop (l # body @ rest) None = Inr (group_by_label labels)"
    by (intro parse_loop_section [of l a b n labels body rest]) simp_all
  then show "parse_pajek_communities (Iterable (l # body @ rest)) = Inr (group_by_label labels)"
    by (simp add: parse_iterable)
qed

theorem header_is_first_line_witness:
  "\<not> is_header ''% comment'' \<and> is_header ''*VERTICESx 2''
   \<and> parse_pajek_communities (Iterable [''% comment'', ''*Vertices 1'', ''1''])
     = parse_pajek_communities (Iterable [])
   \<and> parse_pajek_communities (Iterable [''*VERTICESx 2'', ''5'', ''5'']) = Inr [[0, 1]]"
proof -
  have n1: "\<not> is_header ''% comment''" by code_simp
  have h1: "is_header ''*VERTICESx 2''" by code_simp
  have h2: "py_split ''*VERTICESx 2'' = [''*VERTICESx'', ''2'']" by code_simp
  have h3: "py_int ''2'' = Some 2" by code_simp
  have h4: "nat 2 = length [5, 5 :: int]" by simp
  have h5: "map py_int [''5'', ''5''] = map Some [5, 5]" by code_simp
  have h6: "scan_stops []" by simp
  have g: "group_by_label [5, 5] = [[0, 1]]" by code_simp
  from header_is_first_line [of "''% comment''" "[''*Vertices 1'', ''1'']"] n1
  have a: "parse_pajek_communities (Iterable [''% comment'', ''*Vertices 1'', ''1''])
     = parse_pajek_communities (Iterable [])" by blast
  from header_is_first_line [of "''*VERTICESx 2''" "[]" "''*VERTICESx''" "''2''" 2 "[5, 5]"
      "[''5'', ''5'']" "[]"] h1 h2 h3 h4 h5 h6 g
  have b: "parse_pajek_communities (Iterable [''*VERTICESx 2'', ''5'', ''5'']) = Inr [[0, 1]]"
    by simp
  from n1 h1 a b show ?thesis by blast
qed

text \<open>
  C8, as stated: every input with fewer than \<open>N\<close> body lines after the header fails
  with the premature-end error (the \<open>StopIteration\<close> of \<open>next\<close>). It fails when a body
  line that is present is no integer: \<open>int\<close> raises \<open>ValueError\<close> there, before the
  end of the input is reached.
\<close>

theorem premature_eof_counterexample:
  "parse_pajek_communities (Iterable [''*Vertices 5'', ''abc'']) = Inl ValueError"
  by code_simp

text \<open>
  C8, amended: when the header declares \<open>N\<close>, fewer than \<open>N\<close> body lines follow it and
  each of them is an integer, the call fails with \<open>StopIteration\<close>; the result is the
  error alone, no partition.
\<close>

theorem premature_eof:
  assumes "is_header l" and "py_split l = [a, b]" and "py_int b = Some n"
    and "map py_int body = map Some labels" and "int (length body) < n"
  shows "parse_pajek_communities (Iterable (l # body)) = Inl StopIteration"
proof -
  from assms(4) have "length body = length labels"
    by (metis length_map)
  with assms(5) have "length labels < nat n" by simp
  with assms(4) have "read_assignments (nat n) 0 body [] = Inl StopIteration"
    by (rule read_assignments_short)
  with assms(1-3) show ?thesis by (simp add: parse_iterable)
qed

theorem premature_eof_witness:
  "is_header ''*Vertices 5'' \<and> int (length [''1'', ''2'', ''1'']) < 5
   \<and> parse_pajek_communities (Iterable [''*Vertices 5'', ''1'', ''2'', ''1'']) = Inl StopIteration"
proof -
  have h1: "is_header ''*Vertices 5''" by code_simp
  have h2: "py_split ''*Vertices 5'' = [''*Vertices'', ''5'']" by code_simp
  have h3: "py_int ''5'' = Some 5" by code_simp
  have h4: "map py_int [''1'', ''2'', ''1''] = map Some [1, 2, 1]" by code_simp
  have h5: "int (length [''1'', ''2'', ''1'']) < 5" by simp
  from premature_eof [OF h1 h2 h3 h4 h5] h1 h5 show ?thesis by simp
qed

text \<open>
  C10. A carriage return at the end of every line changes neither the partition nor
  the error: the header test looks at the beginning of the line, and \<open>split\<close> and \<open>int\<close>
  both treat the carriage return as white space. So lines that end in carriage return
  and line feed, as the writer's output does, are read like lines that end in a line
  feed.
\<close>

theorem crlf_read_like_lf:
  "parse_pajek_communities (Iterable (map (\<lambda>l. l @ [carriage_return]) ls))
     = parse_pajek_communities (Iterable ls)
   \<and> parse_pajek_communities (Iterable (map (\<lambda>l. l @ [carriage_return, newline]) ls))
     = parse_pajek_communities (Iterable (map (\<lambda>l. l @ [newline]) ls))"
proof -
  have cr: "parse_loop (map (\<lambda>l. l @ [carriage_return]) ls) c = parse_loop ls c" for ls c
    by (rule parse_loop_map)
      (simp_all add: is_header_append py_split_append py_int_append carriage_return_spaces)
  have crlf: "parse_loop (map (\<lambda>l. l @ [carriage_return, newline]) ls) c = parse_loop ls c" for ls c
    by (rule parse_loop_map)
      (simp_all add: is_header_append py_split_append py_int_append carriage_return_spaces
        newline_spaces)
  have lf: "parse_loop (map (\<lambda>l. l @ [newline]) ls) c = parse_loop ls c" for ls c
    by (rule parse_loop_map)
      (simp_all add: is_header_append py_split_append py_int_append newline_spaces)
  show ?thesis
    by (simp add: parse_iterable cr crlf lf)
qed

section \<open>Facts about the writer\<close>

lemma fold_min_Min: "fold min xs x = Min (set (x # xs))"
  by (simp only: Min.set_eq_fold)

lemma fold_min_in: "fold min xs (x :: int) \<in> set (x # xs)"
  unfolding fold_min_Min by (rule Min_in) simp_all

lemma fold_min_le: "y \<in> set (x # xs) \<Longrightarrow> fold min xs (x :: int) \<le> y"
  unfolding fold_min_Min by (rule Min_le) simp_all

lemma py_min_least: "py_min ys = Some m \<Longrightarrow> m \<in> set ys \<and> (\<forall>y\<in>set ys. m \<le> y)"
proof (cases ys)
  case Nil
  assume "py_min ys = Some m"
  with Nil show ?thesis by simp
next
  case (Cons x xs)
  assume "py_min ys = Some m"
  with Cons have m: "m = fold min xs x" by simp
  show ?thesis
    unfolding m Cons using fold_min_in [of xs x] fold_min_le [of _ x xs] by blast
qed

lemma item_mins_sub: "m \<in> set (item_mins cl) \<Longrightarrow> m \<in> set (concat cl)"
proof (induction cl rule: item_mins.induct)
  case (3 x xs cl)
  then show ?case using fold_min_in [of xs x] by auto
qed auto

lemma item_mins_below: "v \<in> set (concat cl) \<Longrightarrow> \<exists>m\<in>set (item_mins cl). m \<le> v"
proof (induction cl rule: item_mins.induct)
  case (3 x xs cl)
  then show ?case using fold_min_le [of v x xs] by auto
qed auto

lemma py_min_item_mins:
  assumes "k \<in> set (concat cl)" and "\<forall>v\<in>set (concat cl). k \<le> v"
  shows "py_min (item_mins cl) = Some k"
proof -
  from item_mins_below [OF assms(1)] obtain m' where m': "m' \<in> set (item_mins cl)" "m' \<le> k"
    by blast
  then have "item_mins cl \<noteq> []" by auto
  then obtain m where m: "py_min (item_mins cl) = Some m"
    by (cases "item_mins cl") auto
  from py_min_least [OF m] have "m \<in> set (item_mins cl)" and "\<forall>y\<in>set (item_mins cl). m \<le> y"
    by blast+
  with m' assms(2) item_mins_sub [of m cl] have "m = k" by force
  with m show ?thesis by simp
qed

lemma find_owner_Some: "find_owner v cl = Some j \<Longrightarrow> j < length cl \<and> v \<in> set (cl ! j)"
proof (induction cl arbitrary: j)
  case Nil
  then show ?case by simp
next
  case (Cons c cl)
  then show ?case by (cases "v \<in> set c") auto
qed

lemma find_owner_ex: "v \<in> set (concat cl) \<Longrightarrow> \<exists>j. find_owner v cl = Some j"
  by (induction cl) auto

lemma find_owner_unique:
  "distinct (concat cl) \<Longrightarrow> j < length cl \<Longrightarrow> v \<in> set (cl ! j) \<Longrightarrow> find_owner v cl = Some j"
proof (induction cl arbitrary: j)
  case Nil
  then show ?case by simp
next
  case (Cons c cl)
  show ?case
  proof (cases j)
    case 0
    with Cons.prems show ?thesis by simp
  next
    case (Suc j')
    with Cons.prems have j': "j' < length cl" "v \<in> set (cl ! j')" by simp_all
    then have "v \<in> set (concat cl)" by (auto intro: nth_mem)
    with Cons.prems(1) have "v \<notin> set c" by auto
    moreover from Cons.prems(1) have "distinct (concat cl)" by simp
    ultimately show ?thesis using Cons.IH [OF _ j'] Suc by simp
  qed
qed

lemma find_owner_filter: "Q v \<Longrightarrow> find_owner v (map (filter Q) cl) = find_owner v cl"
  by (induction cl) auto

lemma find_owner_sets: "map set P = map set Q \<Longrightarrow> find_owner v P = find_owner v Q"
proof (induction P arbitrary: Q)
  case Nil
  then show ?case by simp
next
  case (Cons c P)
  then obtain d Q' where "Q = d # Q'" "set c = set d" "map set P = map set Q'"
    by (cases Q) auto
  with Cons.IH [of Q'] show ?case by simp
qed

lemma filter_absent: "v \<notin> set c \<Longrightarrow> filter (\<lambda>x. x \<noteq> v) c = c"
  by (induction c) auto

lemma remove_owner:
  "distinct (concat cl) \<Longrightarrow> find_owner v cl = Some j \<Longrightarrow>
   cl[j := remove1 v (cl ! j)] = map (filter (\<lambda>x. x \<noteq> v)) cl"
proof (induction cl arbitrary: j)
  case Nil
  then show ?case by simp
next
  case (Cons c cl)
  from Cons.prems(1) have d: "distinct c" "distinct (concat cl)" "set c \<inter> set (concat cl) = {}"
    by auto
  show ?case
  proof (cases "v \<in> set c")
    case True
    with Cons.prems(2) have j: "j = 0" by simp
    from True d(3) have "\<forall>c'\<in>set cl. v \<notin> set c'" by auto
    then have "map (filter (\<lambda>x. x \<noteq> v)) cl = cl"
      by (intro map_idI filter_absent) blast
    moreover have "remove1 v c = filter (\<lambda>x. x \<noteq> v) c"
      using d(1) by (simp add: distinct_remove1_removeAll removeAll_filter_not_eq) (metis)
    ultimately show ?thesis using j by simp
  next
    case False
    with Cons.prems(2) obtain j' where j': "j = Suc j'" "find_owner v cl = Some j'"
      by auto
    with Cons.IH [OF d(2) j'(2)] False show ?thesis by (simp add: filter_absent)
  qed
qed

lemma distinct_concat_filter: "distinct (concat cl) \<Longrightarrow> distinct (concat (map (filter Q) cl))"
  by (induction cl) auto

lemma set_concat_filter: "set (concat (map (filter Q) cl)) = {v \<in> set (concat cl). Q v}"
  by (induction cl) auto

lemma I1_distinct: "I1 P \<Longrightarrow> distinct (concat P)"
proof -
  assume "I1 P"
  then have "distinct (sort (concat P))" by (simp add: I1_def distinct_map)
  then show ?thesis by simp
qed

lemma I1_set: "I1 P \<Longrightarrow> set (concat P) = int ` {0..<length (concat P)}"
proof -
  assume "I1 P"
  then have "set (sort (concat P)) = set (map int [0..<length (concat P)])"
    by (simp add: I1_def)
  then show ?thesis by simp
qed

text \<open>The invariant in the words of the specification: no duplicates, no gaps.\<close>

lemma I1_iff:
  "I1 P \<longleftrightarrow> distinct (concat P) \<and> set (concat P) = int ` {0..<length (concat P)}"
proof
  assume "I1 P"
  then show "distinct (concat P) \<and> set (concat P) = int ` {0..<length (concat P)}"
    using I1_distinct I1_set by blast
next
  assume a: "distinct (concat P) \<and> set (concat P) = int ` {0..<length (concat P)}"
  have "sort (concat P) = map int [0..<length (concat P)]"
  proof (rule sorted_distinct_set_unique)
    show "sorted (sort (concat P))" by simp
    show "distinct (sort (concat P))" using a by simp
    have "sorted_wrt (<) (map int [0..<length (concat P)])"
      by (simp add: sorted_wrt_map)
    then show "sorted (map int [0..<length (concat P)])"
      and "distinct (map int [0..<length (concat P)])"
      by (simp_all add: strict_sorted_iff)
    show "set (sort (concat P)) = set (map int [0..<length (concat P)])"
      using a by simp
  qed
  then show "I1 P" by (simp add: I1_def)
qed

lemma pop_min_step:
  assumes "distinct (concat P)" and "set (concat P) = int ` {0..<N}" and "k < N"
  shows "\<exists>j. find_owner (int k) P = Some j \<and> j < length P \<and> int k \<in> set (P ! j) \<and>
    pop_min (map (filter (\<lambda>v. int k \<le> v)) P) =
      Inr (j, map (filter (\<lambda>v. int (Suc k) \<le> v)) P)"
proof -
  let ?cl = "map (filter (\<lambda>v. int k \<le> v)) P"
  from assms(2,3) have kin: "int k \<in> set (concat P)" by auto
  then obtain j where j: "find_owner (int k) P = Some j"
    using find_owner_ex by blast
  have "int k \<in> set (concat ?cl)" and "\<forall>v\<in>set (concat ?cl). int k \<le> v"
    using kin by (simp_all add: set_concat_filter)
  then have m: "py_min (item_mins ?cl) = Some (int k)"
    by (rule py_min_item_mins)
  have o: "find_owner (int k) ?cl = Some j"
    using j by (simp add: find_owner_filter)
  have "?cl[j := remove1 (int k) (?cl ! j)] = map (filter (\<lambda>x. x \<noteq> int k)) ?cl"
    using distinct_concat_filter [OF assms(1)] o by (rule remove_owner)
  also have "\<dots> = map (filter (\<lambda>v. int (Suc k) \<le> v)) P"
  proof -
    have "filter (\<lambda>x. x \<noteq> int k) (filter (\<lambda>v. int k \<le> v) c) = filter (\<lambda>v. int (Suc k) \<le> v) c"
      for c by (induction c) auto
    then show ?thesis by (simp only: map_map comp_def)
  qed
  finally have "pop_min ?cl = Inr (j, map (filter (\<lambda>v. int (Suc k) \<le> v)) P)"
    using m o by (simp add: pop_min_def)
  with j find_owner_Some [OF j] show ?thesis by blast
qed

lemma gen_loop_I1:
  assumes "distinct (concat P)" and "set (concat P) = int ` {0..<N}"
  shows "k + n \<le> N \<Longrightarrow>
    gen_loop n (map (filter (\<lambda>v. int k \<le> v)) P) =
      (map (\<lambda>i. py_str (int (owner_index P (int i)) + 1)) [k..<k + n], None)"
proof (induction n arbitrary: k)
  case 0
  show ?case by simp
next
  case (Suc n)
  then have "k < N" by simp
  from pop_min_step [OF assms this] obtain j where
    j: "find_owner (int k) P = Some j"
      "pop_min (map (filter (\<lambda>v. int k \<le> v)) P) = Inr (j, map (filter (\<lambda>v. int (Suc k) \<le> v)) P)"
    by blast
  from Suc.prems have "Suc k + n \<le> N" by simp
  note IH = Suc.IH [OF this]
  have u: "[k..<k + Suc n] = k # [Suc k..<Suc k + n]"
    using upt_conv_Cons [of k "Suc k + n"] by simp
  from j(1) have o: "owner_index P (int k) = j"
    by (simp add: owner_index_def)
  define rest where "rest = map (\<lambda>i. py_str (int (owner_index P (int i)) + 1)) [Suc k..<Suc k + n]"
  have r: "gen_loop n (map (filter (\<lambda>v. int (Suc k) \<le> v)) P) = (rest, None)"
    by (simp only: rest_def IH)
  have "map (\<lambda>i. py_str (int (owner_index P (int i)) + 1)) [k..<k + Suc n] = py_str (int j + 1) # rest"
    by (simp only: u list.map o rest_def)
  moreover have "gen_loop (Suc n) (map (filter (\<lambda>v. int k \<le> v)) P) = (py_str (int j + 1) # rest, None)"
    by (simp only: gen_loop.simps j(2) r sum.case prod.case)
  ultimately show ?case by (simp only:)
qed

lemma working_I1:
  assumes "distinct (concat P)" and "set (concat P) = int ` {0..<N}"
  shows "k + n \<le> N \<Longrightarrow>
    working n (map (filter (\<lambda>v. int k \<le> v)) P) = Inr (map (filter (\<lambda>v. int (k + n) \<le> v)) P)"
proof (induction n arbitrary: k)
  case 0
  show ?case by simp
next
  case (Suc n)
  then have "k < N" by simp
  from pop_min_step [OF assms this] obtain j where
    j: "pop_min (map (filter (\<lambda>v. int k \<le> v)) P) = Inr (j, map (filter (\<lambda>v. int (Suc k) \<le> v)) P)"
    by blast
  from Suc.prems have "Suc k + n \<le> N" by simp
  from Suc.IH [OF this] j show ?case by simp
qed

lemma filter_nonneg_id:
  assumes "set (concat P) = int ` {0..<N}"
  shows "map (filter (\<lambda>v. int 0 \<le> v)) P = P"
proof (rule map_idI)
  fix c assume "c \<in> set P"
  then have "set c \<subseteq> int ` {0..<N}" using assms by auto
  then have "\<forall>v\<in>set c. int 0 \<le> v" by auto
  then show "filter (\<lambda>v. int 0 \<le> v) c = c" by simp
qed

lemma generate_I1:
  assumes "I1 P"
  shows "generate_pajek_communities P =
    ((''*Vertices '' @ py_str (int (length (concat P)))) #
       map (\<lambda>i. py_str (int (owner_index P (int i)) + 1)) [0..<length (concat P)], None)"
proof -
  let ?N = "length (concat P)"
  note d = I1_distinct [OF assms] and s = I1_set [OF assms]
  have "gen_loop ?N (map (filter (\<lambda>v. int 0 \<le> v)) P) =
      (map (\<lambda>i. py_str (int (owner_index P (int i)) + 1)) [0..<0 + ?N], None)"
    by (rule gen_loop_I1 [OF d s]) simp
  then have "gen_loop ?N P = (map (\<lambda>i. py_str (int (owner_index P (int i)) + 1)) [0..<?N], None)"
    by (simp only: filter_nonneg_id [OF s] add_0)
  then show ?thesis
    by (simp add: generate_pajek_communities_def length_concat Let_def)
qed

lemma owner_index_I1:
  assumes "I1 P" and "i < length (concat P)"
  shows "owner_index P (int i) < length P \<and> int i \<in> set (P ! owner_index P (int i))"
proof -
  from pop_min_step [OF I1_distinct [OF assms(1)] I1_set [OF assms(1)] assms(2)]
  obtain j where "find_owner (int i) P = Some j" "j < length P" "int i \<in> set (P ! j)"
    by blast
  then show ?thesis by (simp add: owner_index_def)
qed

lemma item_mins_nonempty: "item_mins cl \<noteq> [] \<longleftrightarrow> (\<exists>c\<in>set cl. c \<noteq> [])"
  by (induction cl rule: item_mins.induct) auto

lemma I1_same_sets:
  assumes "I1 P" and "I1 Q" and "map set Q = map set P"
  shows "length (concat Q) = length (concat P)"
proof -
  have "set (concat Q) = \<Union> (set (map set Q))" by simp
  also have "\<dots> = \<Union> (set (map set P))" by (simp only: assms(3))
  also have "\<dots> = set (concat P)" by simp
  finally have "int ` {0..<length (concat Q)} = int ` {0..<length (concat P)}"
    using I1_set [OF assms(1)] I1_set [OF assms(2)] by simp
  then have "{0..<length (concat Q)} = {0..<length (concat P)}"
    by (simp add: inj_image_eq_iff)
  then have "card {0..<length (concat Q)} = card {0..<length (concat P)}"
    by (rule arg_cong)
  then show ?thesis by simp
qed

section \<open>Claims about the writer\<close>

text \<open>
  C2. For a partition \<open>P\<close> that satisfies I1 with \<open>N\<close> vertex indices, the writer
  yields the header line \<open>*Vertices N\<close> and then exactly \<open>N\<close> body lines, and it ends
  without an exception; body line \<open>i + 1\<close> is the one-based position in \<open>P\<close> of the
  community that contains the vertex index \<open>i\<close>. Only the membership of the
  communities counts: a partition whose communities have the same members, stored in
  another order, gives the same lines.
\<close>

theorem generate_lines:
  assumes "I1 P" and "N = length (concat P)"
  shows "\<exists>body.
      generate_pajek_communities P = ((''*Vertices '' @ py_str (int N)) # body, None)
    \<and> length body = N
    \<and> (\<forall>i<N. \<exists>j<length P. int i \<in> set (P ! j) \<and> body ! i = py_str (int j + 1))
    \<and> (\<forall>Q. I1 Q \<and> map set Q = map set P \<longrightarrow>
          generate_pajek_communities Q = generate_pajek_communities P)"
proof -
  let ?body = "\<lambda>P. map (\<lambda>i. py_str (int (owner_index P (int i)) + 1)) [0..<length (concat P)]"
  have g: "generate_pajek_communities P = ((''*Vertices '' @ py_str (int N)) # ?body P, None)"
    using generate_I1 [OF assms(1)] assms(2) by simp
  have l: "length (?body P) = N"
    using assms(2) by simp
  have o: "\<forall>i<N. \<exists>j<length P. int i \<in> set (P ! j) \<and> ?body P ! i = py_str (int j + 1)"
  proof (intro allI impI)
    fix i assume "i < N"
    then have i: "i < length (concat P)" using assms(2) by simp
    from owner_index_I1 [OF assms(1) i] i
    show "\<exists>j<length P. int i \<in> set (P ! j) \<and> ?body P ! i = py_str (int j + 1)"
      by (intro exI [of _ "owner_index P (int i)"]) simp
  qed
  have q: "\<forall>Q. I1 Q \<and> map set Q = map set P \<longrightarrow>
      generate_pajek_communities Q = generate_pajek_communities P"
  proof (intro allI impI)
    fix Q assume Q: "I1 Q \<and> map set Q = map set P"
    then have n: "length (concat Q) = length (concat P)"
      using I1_same_sets [OF assms(1)] by blast
    from Q have "owner_index Q v = owner_index P v" for v
      by (simp add: owner_index_def find_owner_sets [of Q P])
    with n have "?body Q = ?body P" by simp
    with n Q generate_I1 [of Q] generate_I1 [OF assms(1)]
    show "generate_pajek_communities Q = generate_pajek_communities P" by simp
  qed
  from g l o q show ?thesis by blast
qed

theorem generate_lines_witness:
  "I1 [[3, 0], [1, 2]]
   \<and> generate_pajek_communities [[3, 0], [1, 2]] = ([''*Vertices 4'', ''1'', ''2'', ''2'', ''1''], None)
   \<and> (\<exists>body. generate_pajek_communities [[3, 0], [1, 2]] = (''*Vertices 4'' # body, None)
        \<and> length body = 4
        \<and> generate_pajek_communities [[0, 3], [2, 1]] = generate_pajek_communities [[3, 0], [1, 2]])"
proof -
  have h: "I1 [[3, 0], [1, 2]]" by code_simp
  have h': "I1 [[0, 3], [2, 1]]" by code_simp
  have n: "(4 :: nat) = length (concat [[3, 0], [1, 2 :: int]])" by simp
  have s: "py_str (int 4) = ''4''" by code_simp
  have v: "generate_pajek_communities [[3, 0], [1, 2]] = ([''*Vertices 4'', ''1'', ''2'', ''2'', ''1''], None)"
    by code_simp
  from generate_lines [OF h n] obtain body where
    b: "generate_pajek_communities [[3, 0], [1, 2]] = ((''*Vertices '' @ py_str (int 4)) # body, None)"
      "length body = 4"
      "\<forall>Q. I1 Q \<and> map set Q = map set [[3, 0], [1, 2]] \<longrightarrow>
          generate_pajek_communities Q = generate_pajek_communities [[3, 0], [1, 2]]"
    by blast
  have "map set [[0, 3], [2, 1 :: int]] = map set [[3, 0], [1, 2]]" by auto
  with b(3) h' have "generate_pajek_communities [[0, 3], [2, 1]] = generate_pajek_communities [[3, 0], [1, 2]]"
    by blast
  with h v b(1,2) s show ?thesis by simp
qed

text \<open>
  C9. For a partition \<open>P\<close> that satisfies I1 with \<open>N\<close> vertex indices, each of the
  \<open>N\<close> iterations finds its working copy with a community that is not empty, so the
  list of minima is not empty, and the iteration succeeds (neither \<open>min\<close> nor \<open>next\<close>
  raises); the writer ends without an exception after \<open>N + 1\<close> lines.
\<close>

theorem generate_steps_succeed:
  assumes "I1 P" and "N = length (concat P)"
  shows "(\<forall>k<N. \<exists>cl community cl'.
            working k P = Inr cl \<and> (\<exists>c\<in>set cl. c \<noteq> []) \<and> item_mins cl \<noteq> []
          \<and> pop_min cl = Inr (community, cl'))
    \<and> snd (generate_pajek_communities P) = None
    \<and> length (fst (generate_pajek_communities P)) = N + 1"
proof -
  note d = I1_distinct [OF assms(1)] and s = I1_set [OF assms(1)]
  have steps: "\<forall>k<N. \<exists>cl community cl'.
      working k P = Inr cl \<and> (\<exists>c\<in>set cl. c \<noteq> []) \<and> item_mins cl \<noteq> []
      \<and> pop_min cl = Inr (community, cl')"
  proof (intro allI impI)
    fix k assume "k < N"
    then have k: "k < length (concat P)" using assms(2) by simp
    let ?cl = "map (filter (\<lambda>v. int k \<le> v)) P"
    have "working k (map (filter (\<lambda>v. int 0 \<le> v)) P) = Inr (map (filter (\<lambda>v. int (0 + k) \<le> v)) P)"
      using k by (intro working_I1 [OF d s]) simp
    then have w: "working k P = Inr ?cl"
      by (simp only: filter_nonneg_id [OF s] add_0)
    from pop_min_step [OF d s k] obtain j where
      p: "pop_min ?cl = Inr (j, map (filter (\<lambda>v. int (Suc k) \<le> v)) P)"
      by blast
    then have m: "item_mins ?cl \<noteq> []"
      by (auto simp: pop_min_def split: option.splits)
    then have "\<exists>c\<in>set ?cl. c \<noteq> []"
      by (simp only: item_mins_nonempty)
    with w m p show "\<exists>cl community cl'.
      working k P = Inr cl \<and> (\<exists>c\<in>set cl. c \<noteq> []) \<and> item_mins cl \<noteq> []
      \<and> pop_min cl = Inr (community, cl')"
      by blast
  qed
  from generate_I1 [OF assms(1)] assms(2)
  have "snd (generate_pajek_communities P) = None"
    and "length (fst (generate_pajek_communities P)) = N + 1"
    by simp_all
  with steps show ?thesis by blast
qed

theorem generate_steps_succeed_witness:
  "I1 [[3, 0], [1, 2]]
   \<and> working 1 [[3, 0], [1, 2]] = Inr [[3], [1, 2]]
   \<and> pop_min [[3], [1, 2]] = Inr (1, [[3], [2]])
   \<and> (\<exists>cl community cl'. working 3 [[3, 0], [1, 2]] = Inr cl \<and> item_mins cl \<noteq> []
        \<and> pop_min cl = Inr (community, cl'))
   \<and> snd (generate_pajek_communities [[3, 0], [1, 2]]) = None
   \<and> length (fst (generate_pajek_communities [[3, 0], [1, 2]])) = 5"
proof -
  have h: "I1 [[3, 0], [1, 2]]" by code_simp
  have n: "(4 :: nat) = length (concat [[3, 0], [1, 2 :: int]])" by simp
  have w: "working 1 [[3, 0], [1, 2]] = Inr [[3], [1, 2]]" by code_simp
  have p: "pop_min [[3], [1, 2]] = Inr (1, [[3], [2]])" by code_simp
  from generate_steps_succeed [OF h n] have
    a: "\<forall>k<4. \<exists>cl community cl'. working k [[3, 0], [1, 2]] = Inr cl
        \<and> (\<exists>c\<in>set cl. c \<noteq> []) \<and> item_mins cl \<noteq> [] \<and> pop_min cl = Inr (community, cl')"
    and b: "snd (generate_pajek_communities [[3, 0], [1, 2]]) = None"
    and c: "length (fst (generate_pajek_communities [[3, 0], [1, 2]])) = 4 + 1"
    by blast+
  have "(3 :: nat) < 4" by simp
  with a have "\<exists>cl community cl'. working 3 [[3, 0], [1, 2]] = Inr cl \<and> item_mins cl \<noteq> []
        \<and> pop_min cl = Inr (community, cl')"
    by blast
  with h w p b c show ?thesis by simp
qed

section \<open>Reading what the writer yields\<close>

lemma first_idx_found: "c \<in> set xs \<Longrightarrow> first_idx xs c < length xs \<and> xs ! first_idx xs c = c"
  by (induction xs) auto

lemma first_idx_le: "i < length xs \<Longrightarrow> xs ! i = c \<Longrightarrow> first_idx xs c \<le> i"
proof (induction xs arbitrary: i)
  case Nil
  then show ?case by simp
next
  case (Cons x xs)
  then show ?case by (cases i) auto
qed

lemma first_seen_by_first_idx:
  "sorted_wrt (\<lambda>a b. first_idx xs a < first_idx xs b) (first_seen xs)"
proof (induction xs)
  case Nil
  show ?case by simp
next
  case (Cons x xs)
  let ?R = "\<lambda>a b. first_idx xs a < first_idx xs b"
  let ?R' = "\<lambda>a b. first_idx (x # xs) a < first_idx (x # xs) b"
  let ?fs = "filter (\<lambda>y. y \<noteq> x) (first_seen xs)"
  from Cons.IH have "sorted_wrt ?R ?fs" by (rule sorted_wrt_filter)
  then have "sorted_wrt ?R' ?fs"
    by (rule sorted_wrt_mono_rel [rotated]) auto
  moreover have "\<forall>y\<in>set ?fs. ?R' x y" by auto
  ultimately show ?case by simp
qed

lemma first_seen_unique:
  assumes "distinct ys" and "set ys = set xs"
    and "sorted_wrt (\<lambda>a b. first_idx xs a < first_idx xs b) ys"
  shows "first_seen xs = ys"
proof -
  let ?f = "first_idx xs"
  have inj: "inj_on ?f (set xs)"
  proof (rule inj_onI)
    fix a b assume "a \<in> set xs" "b \<in> set xs" "?f a = ?f b"
    then show "a = b" using first_idx_found by metis
  qed
  have s1: "sorted_wrt (<) (map ?f (first_seen xs))"
    using first_seen_by_first_idx [of xs] by (simp add: sorted_wrt_map)
  have s2: "sorted_wrt (<) (map ?f ys)"
    using assms(3) by (simp add: sorted_wrt_map)
  show ?thesis
  proof (rule map_sorted_distinct_set_unique [of ?f])
    show "inj_on ?f (set (first_seen xs) \<union> set ys)"
      using inj assms(2) by (simp add: set_first_seen)
    show "sorted (map ?f (first_seen xs))" "distinct (map ?f (first_seen xs))"
      using s1 by (simp_all add: strict_sorted_iff)
    show "sorted (map ?f ys)" "distinct (map ?f ys)"
      using s2 by (simp_all add: strict_sorted_iff)
    show "set (first_seen xs) = set ys"
      using assms(2) by (simp add: set_first_seen)
  qed
qed

lemma item_mins_Min: "[] \<notin> set P \<Longrightarrow> item_mins P = map (\<lambda>c. Min (set c)) P"
proof (induction P rule: item_mins.induct)
  case (3 x xs cl)
  then show ?case by (simp add: fold_min_Min)
qed auto


lemma owner_index_member:
  assumes "I1 P" and "j < length P" and "v \<in> set (P ! j)"
  shows "owner_index P v = j"
  using find_owner_unique [OF I1_distinct [OF assms(1)] assms(2,3)]
  by (simp add: owner_index_def)

lemma member_is_index:
  assumes "I1 P" and "j < length P" and "v \<in> set (P ! j)"
  shows "0 \<le> v \<and> nat v < length (concat P)"
proof -
  from assms(2,3) have "v \<in> set (concat P)" by (auto intro: nth_mem)
  with I1_set [OF assms(1)] show ?thesis by auto
qed

lemma labels_of_nth:
  "i < length (concat P) \<Longrightarrow> labels_of P ! i = int (owner_index P (int i)) + 1"
  by (simp add: labels_of_def)

lemma length_labels_of: "length (labels_of P) = length (concat P)"
  by (simp add: labels_of_def)

lemma label_of_member:
  assumes "I1 P" and "j < length P" and "v \<in> set (P ! j)"
  shows "labels_of P ! nat v = int j + 1"
  using member_is_index [OF assms] owner_index_member [OF assms]
  by (simp add: labels_of_nth)

lemma least_member:
  assumes "least_first P" and "j < length P"
  shows "Min (set (P ! j)) \<in> set (P ! j)"
proof -
  from assms have "P ! j \<noteq> []"
    unfolding least_first_def by (metis nth_mem)
  then show ?thesis by (intro Min_in) simp_all
qed

lemma first_idx_label:
  assumes "I1 P" and "least_first P" and "j < length P"
  shows "first_idx (labels_of P) (int j + 1) = nat (Min (set (P ! j)))"
proof -
  let ?m = "Min (set (P ! j))"
  let ?xs = "labels_of P"
  note m = least_member [OF assms(2,3)]
  note mi = member_is_index [OF assms(1,3) m]
  have at: "?xs ! nat ?m = int j + 1"
    by (rule label_of_member [OF assms(1,3) m])
  have le: "first_idx ?xs (int j + 1) \<le> nat ?m"
    using mi at by (intro first_idx_le) (simp_all add: length_labels_of)
  have "int j + 1 \<in> set ?xs"
    using mi at by (metis length_labels_of nth_mem)
  from first_idx_found [OF this] have
    i0: "first_idx ?xs (int j + 1) < length (concat P)"
      "?xs ! first_idx ?xs (int j + 1) = int j + 1"
    by (simp_all add: length_labels_of)
  let ?i0 = "first_idx ?xs (int j + 1)"
  from i0 have "owner_index P (int ?i0) = j"
    by (simp add: labels_of_nth)
  with owner_index_I1 [OF assms(1) i0(1)] have "int ?i0 \<in> set (P ! j)" by simp
  then have "?m \<le> int ?i0" by (intro Min_le) simp_all
  with le mi show ?thesis by linarith
qed

lemma set_labels_of:
  assumes "I1 P" and "least_first P"
  shows "set (labels_of P) = (\<lambda>j. int j + 1) ` {0..<length P}"
proof (intro equalityI subsetI)
  fix c assume "c \<in> set (labels_of P)"
  then obtain i where "i < length (concat P)" "c = int (owner_index P (int i)) + 1"
    by (auto simp: labels_of_def)
  with owner_index_I1 [OF assms(1), of i] show "c \<in> (\<lambda>j. int j + 1) ` {0..<length P}"
    by auto
next
  fix c assume "c \<in> (\<lambda>j. int j + 1) ` {0..<length P}"
  then obtain j where j: "j < length P" "c = int j + 1" by auto
  note m = least_member [OF assms(2) j(1)]
  from member_is_index [OF assms(1) j(1) m] label_of_member [OF assms(1) j(1) m] j(2)
  show "c \<in> set (labels_of P)"
    by (metis length_labels_of nth_mem)
qed

lemma first_seen_labels_of:
  assumes "I1 P" and "least_first P"
  shows "first_seen (labels_of P) = map (\<lambda>j. int j + 1) [0..<length P]"
proof (rule first_seen_unique)
  show "distinct (map (\<lambda>j. int j + 1) [0..<length P])"
    by (simp add: distinct_map inj_on_def)
  show "set (map (\<lambda>j. int j + 1) [0..<length P]) = set (labels_of P)"
    by (simp add: set_labels_of [OF assms])
  from assms(2) have ne: "[] \<notin> set P" and sm: "sorted_wrt (<) (item_mins P)"
    by (simp_all add: least_first_def)
  have mins: "sorted_wrt (<) (map (\<lambda>c. Min (set c)) P)"
    using sm unfolding item_mins_Min [OF ne] .
  have "first_idx (labels_of P) (int a + 1) < first_idx (labels_of P) (int b + 1)"
    if "a < b" "b < length P" for a b
  proof -
    from that have a: "a < length P" by simp
    from mins that a have "Min (set (P ! a)) < Min (set (P ! b))"
      by (auto simp: sorted_wrt_iff_nth_less)
    moreover have "0 \<le> Min (set (P ! a))"
      using member_is_index [OF assms(1) a least_member [OF assms(2) a]] by simp
    ultimately show ?thesis
      by (simp add: first_idx_label [OF assms a] first_idx_label [OF assms that(2)])
  qed
  then show "sorted_wrt (\<lambda>a b. first_idx (labels_of P) a < first_idx (labels_of P) b)
     (map (\<lambda>j. int j + 1) [0..<length P])"
    by (simp add: sorted_wrt_map sorted_wrt_iff_nth_less)
qed

lemma positions_labels_of:
  assumes "I1 P" and "j < length P"
  shows "positions (int j + 1) (labels_of P) = sort (P ! j)"
proof (rule sorted_distinct_set_unique)
  let ?is = "filter (\<lambda>i. labels_of P ! i = int j + 1) [0..<length (labels_of P)]"
  have "sorted_wrt (<) ?is" by (intro sorted_wrt_filter) simp
  then have "sorted_wrt (<) (map int ?is)" by (simp add: sorted_wrt_map)
  then show "sorted (positions (int j + 1) (labels_of P))"
    and "distinct (positions (int j + 1) (labels_of P))"
    by (simp_all add: positions_def strict_sorted_iff)
  show "sorted (sort (P ! j))" by simp
  have "distinct (concat P)" by (rule I1_distinct [OF assms(1)])
  then have "distinct (P ! j)"
    using assms(2) by (metis distinct_concat_iff nth_mem)
  then show "distinct (sort (P ! j))" by simp
  show "set (positions (int j + 1) (labels_of P)) = set (sort (P ! j))"
  proof (intro equalityI subsetI)
    fix v assume "v \<in> set (positions (int j + 1) (labels_of P))"
    then obtain i where i: "i < length (concat P)" "labels_of P ! i = int j + 1" "v = int i"
      by (auto simp: positions_def length_labels_of)
    then have "owner_index P (int i) = j" by (simp add: labels_of_nth)
    with owner_index_I1 [OF assms(1) i(1)] i(3) show "v \<in> set (sort (P ! j))" by simp
  next
    fix v assume "v \<in> set (sort (P ! j))"
    then have v: "v \<in> set (P ! j)" by simp
    from member_is_index [OF assms v] label_of_member [OF assms v]
    have "nat v < length (labels_of P)" "labels_of P ! nat v = int j + 1" "int (nat v) = v"
      by (simp_all add: length_labels_of)
    then show "v \<in> set (positions (int j + 1) (labels_of P))"
      unfolding positions_def by (metis (mono_tags, lifting) atLeast0LessThan imageI lessThan_iff
          list.set_map mem_Collect_eq set_filter set_upt)
  qed
qed

lemma group_by_label_labels_of:
  assumes "I1 P" and "least_first P"
  shows "group_by_label (labels_of P) = map sort P"
proof -
  have "group_by_label (labels_of P) =
      map (\<lambda>j. positions (int j + 1) (labels_of P)) [0..<length P]"
    by (simp add: group_by_label_def first_seen_labels_of [OF assms] comp_def)
  also have "\<dots> = map (\<lambda>j. sort (P ! j)) [0..<length P]"
    by (rule map_cong) (simp_all add: positions_labels_of [OF assms(1)])
  also have "\<dots> = map sort (map (\<lambda>j. P ! j) [0..<length P])"
    by (simp add: comp_def)
  also have "\<dots> = map sort P"
    by (simp only: map_nth)
  finally show ?thesis .
qed

lemma parse_generate:
  assumes "I1 P"
  shows "parse_pajek_communities (Iterable (fst (generate_pajek_communities P)))
    = Inr (group_by_label (labels_of P))"
proof -
  let ?N = "length (concat P)"
  let ?hdr = "''*Vertices '' @ py_str (int ?N)"
  let ?body = "map (\<lambda>i. py_str (int (owner_index P (int i)) + 1)) [0..<?N]"
  have s: "py_str (int ?N) = str_nat ?N" by (simp add: py_str_def)
  have h1: "is_header ?hdr" by (rule is_header_generated)
  have h2: "py_split ?hdr = [''*Vertices'', str_nat ?N]"
    unfolding s by (rule py_split_header)
  have h3: "py_int (str_nat ?N) = Some (int ?N)" by (rule py_int_str_nat)
  have h4: "nat (int ?N) = length (labels_of P)" by (simp add: length_labels_of)
  have h5: "map py_int ?body = map Some (labels_of P)"
    by (simp add: labels_of_def py_int_py_str comp_def)
  have h6: "scan_stops []" by simp
  have "parse_loop (?hdr # ?body @ []) None = Inr (group_by_label (labels_of P))"
    by (rule parse_loop_section [OF h1 h2 h3 h4 h5 h6])
  then show ?thesis
    by (simp add: parse_iterable generate_I1 [OF assms])
qed

section \<open>The round trip\<close>

text \<open>
  C1, as stated: for every partition \<open>P\<close> that satisfies I1, reading the lines that
  the writer yields for \<open>P\<close> gives the communities of \<open>P\<close>, in the same order and with
  the same members. It fails when the communities of \<open>P\<close> are not listed by ascending
  least vertex index, and when one of them is empty: the lines carry positions only,
  and the reader numbers the communities in the order in which their labels first
  appear and never creates an empty one.
\<close>

theorem round_trip_counterexample:
  "I1 [[1], [0]]
   \<and> parse_pajek_communities (Iterable (fst (generate_pajek_communities [[1], [0]]))) = Inr [[0], [1]]
   \<and> map set [[0], [1 :: int]] \<noteq> map set [[1], [0]]
   \<and> I1 [[0], [], [1]]
   \<and> parse_pajek_communities (Iterable (fst (generate_pajek_communities [[0], [], [1]])))
     = Inr [[0], [1]]"
proof -
  have "I1 [[1], [0]]" by code_simp
  moreover have "parse_pajek_communities (Iterable (fst (generate_pajek_communities [[1], [0]])))
      = Inr [[0], [1]]"
    by code_simp
  moreover have "map set [[0], [1 :: int]] \<noteq> map set [[1], [0]]" by simp
  moreover have "I1 [[0], [], [1]]" by code_simp
  moreover have "parse_pajek_communities (Iterable (fst (generate_pajek_communities [[0], [], [1]])))
      = Inr [[0], [1]]"
    by code_simp
  ultimately show ?thesis by blast
qed

text \<open>
  C1, amended: for every partition \<open>P\<close> that satisfies I1, has no empty community and
  lists its communities by ascending least vertex index, reading the lines that the
  writer yields for \<open>P\<close> gives the communities of \<open>P\<close> in the same order, each with
  the same members, stored in ascending order; when \<open>P\<close> stores them in ascending
  order already, the result is \<open>P\<close> itself.
\<close>

theorem round_trip:
  assumes "I1 P" and "least_first P"
  shows "parse_pajek_communities (Iterable (fst (generate_pajek_communities P))) = Inr (map sort P)
    \<and> map set (map sort P) = map set P
    \<and> ((\<forall>c\<in>set P. sorted c) \<longrightarrow>
         parse_pajek_communities (Iterable (fst (generate_pajek_communities P))) = Inr P)"
proof -
  have r: "parse_pajek_communities (Iterable (fst (generate_pajek_communities P))) = Inr (map sort P)"
    by (simp only: parse_generate [OF assms(1)] group_by_label_labels_of [OF assms])
  have s: "map set (map sort P) = map set P" by simp
  have "map sort P = P" if "\<forall>c\<in>set P. sorted c"
    using that by (intro map_idI) (simp add: sorted_sort_id)
  with r s show ?thesis by simp
qed

theorem round_trip_witness:
  "I1 [[0, 2], [1, 3]] \<and> least_first [[0, 2], [1, 3]]
   \<and> parse_pajek_communities (Iterable (fst (generate_pajek_communities [[0, 2], [1, 3]])))
     = Inr [[0, 2], [1, 3]]
   \<and> I1 [[3, 0], [2, 1]] \<and> least_first [[3, 0], [2, 1]]
   \<and> parse_pajek_communities (Iterable (fst (generate_pajek_communities [[3, 0], [2, 1]])))
     = Inr [[0, 3], [1, 2]]"
proof -
  have h1: "I1 [[0, 2], [1, 3]]" by code_simp
  have h2: "least_first [[0, 2], [1, 3]]" by code_simp
  have h3: "\<forall>c\<in>set [[0, 2], [1, 3 :: int]]. sorted c" by simp
  have k1: "I1 [[3, 0], [2, 1]]" by code_simp
  have k2: "least_first [[3, 0], [2, 1]]" by code_simp
  have k3: "map sort [[3, 0], [2, 1 :: int]] = [[0, 3], [1, 2]]" by simp
  from round_trip [OF h1 h2] h3
  have a: "parse_pajek_communities (Iterable (fst (generate_pajek_communities [[0, 2], [1, 3]])))
     = Inr [[0, 2], [1, 3]]"
    by blast
  from round_trip [OF k1 k2] k3
  have b: "parse_pajek_communities (Iterable (fst (generate_pajek_communities [[3, 0], [2, 1]])))
     = Inr [[0, 3], [1, 2]]"
    by simp
  from h1 h2 k1 k2 a b show ?thesis by blast
qed

end
